theory Spec2Isabelle
  imports Complex_Main "HOL-Library.Word"
begin

section \<open>Data model of the frame hash cache\<close>

text \<open>
  The development embeds \<^verbatim>\<open>app/render/framehashcache.cpp\<close>.  Timestamps are
  the exact rationals of the source's \<^verbatim>\<open>rational\<close> class, a content hash is a
  \<^verbatim>\<open>QByteArray\<close>, and the job order token is a \<^verbatim>\<open>qint64\<close>, compared as a
  signed 64-bit integer.  Member names of the source end in an underscore
  (\<^verbatim>\<open>time_hash_map_\<close>, \<^verbatim>\<open>timebase_\<close>, \<^verbatim>\<open>jobs_\<close>); the underscore is dropped here
  because an identifier may not end in one.
\<close>

type_synonym rational = rat
type_synonym QByteArray = "8 word list"
type_synonym qint64 = "64 word"

text \<open>
  Modelled from the spec: \<^verbatim>\<open>TimeRange\<close> (declared in common/timerange.h, which is
  not part of the sources at hand) is the half-open interval \<open>[in, out)\<close> over
  timestamps, and \<^verbatim>\<open>TimeRange::Contains(time)\<close> is membership in that interval.
\<close>

record TimeRange =
  range_in :: rational
  range_out :: rational

definition Contains :: "TimeRange \<Rightarrow> rational \<Rightarrow> bool" where
  "Contains r t = (range_in r \<le> t \<and> t < range_out r)"

text \<open>\<^verbatim>\<open>JobIdentifier\<close>: the fields \<^verbatim>\<open>range\<close> and \<^verbatim>\<open>job_time\<close> that \<^verbatim>\<open>SetHash\<close> reads.\<close>

record JobIdentifier =
  job_range :: TimeRange
  job_time :: qint64

text \<open>
  What a member function does outside the hash index is recorded, in program
  order, in a trace: taking and releasing the mutex (\<^verbatim>\<open>QMutexLocker\<close>, released by
  \<^verbatim>\<open>unlock()\<close> or at scope exit), the calls into the validity ledger of the base
  class (\<^verbatim>\<open>NoLockValidate\<close>, \<^verbatim>\<open>NoLockInvalidate\<close>) and the signals emitted
  (\<^verbatim>\<open>Validated\<close>, \<^verbatim>\<open>Invalidated\<close>).
\<close>

datatype effect =
    Lock
  | Unlock
  | NoLockValidate TimeRange
  | NoLockInvalidate TimeRange
  | Validated TimeRange
  | Invalidated TimeRange

text \<open>
  \<^verbatim>\<open>QMap<rational, QByteArray>\<close> is an ordered map: a list of (key, value) pairs
  whose keys are strictly ascending, which is also the order in which an
  iterator visits it.
\<close>

type_synonym QMap = "(rational \<times> QByteArray) list"

definition qmap_inv :: "QMap \<Rightarrow> bool" where
  "qmap_inv m = sorted_wrt (<) (map fst m)"

text \<open>\<^verbatim>\<open>QMap::insert\<close>: a new key goes to its place in the order, an existing
  key has its value replaced.\<close>

fun qmap_insert :: "rational \<Rightarrow> QByteArray \<Rightarrow> QMap \<Rightarrow> QMap" where
  "qmap_insert k v [] = [(k, v)]"
| "qmap_insert k v ((k', v') # m) =
     (if k < k' then (k, v) # (k', v') # m
      else if k = k' then (k, v) # m
      else (k', v') # qmap_insert k v m)"

text \<open>\<^verbatim>\<open>QMap::value\<close>: the stored value, or a default-constructed (empty)
  \<^verbatim>\<open>QByteArray\<close> when the key is absent.\<close>

definition qmap_value :: "QMap \<Rightarrow> rational \<Rightarrow> QByteArray" where
  "qmap_value m k = (case map_of m k of None \<Rightarrow> [] | Some v \<Rightarrow> v)"

record FrameHashCache =
  time_hash_map :: QMap
  timebase :: rational
  jobs :: "JobIdentifier list"
  trace :: "effect list"

section \<open>Hash index and currency check\<close>

text \<open>\<^verbatim>\<open>GetHash\<close>: a lookup under the lock.\<close>

definition GetHash :: "FrameHashCache \<Rightarrow> rational \<Rightarrow> QByteArray \<times> FrameHashCache" where
  "GetHash s time =
     (qmap_value (time_hash_map s) time, s\<lparr>trace := trace s @ [Lock, Unlock]\<rparr>)"

text \<open>
  The scan of \<^verbatim>\<open>SetHash\<close> runs from index \<^verbatim>\<open>jobs_.size()-1\<close> down to 0 and stops
  at the first job that matches; \<open>SetHash_scan\<close> is that loop over the jobs still
  to visit, most recent first.
\<close>

fun SetHash_scan :: "JobIdentifier list \<Rightarrow> rational \<Rightarrow> qint64 \<Rightarrow> bool" where
  "SetHash_scan [] time jt = False"
| "SetHash_scan (job # older) time jt =
     (if Contains (job_range job) time \<and> word_sle (job_time job) jt then True
      else SetHash_scan older time jt)"

definition SetHash :: "FrameHashCache \<Rightarrow> rational \<Rightarrow> QByteArray \<Rightarrow> qint64 \<Rightarrow> FrameHashCache" where
  "SetHash s time hash jt =
     (let is_current = SetHash_scan (rev (jobs s)) time jt in
      if \<not> is_current then s\<lparr>trace := trace s @ [Lock, Unlock]\<rparr>
      else
        let validated_range = \<lparr>range_in = time, range_out = time + timebase s\<rparr> in
        s\<lparr>time_hash_map := qmap_insert time hash (time_hash_map s),
          trace := trace s @ [Lock, NoLockValidate validated_range, Unlock,
                              Validated validated_range]\<rparr>)"

text \<open>
  \<^verbatim>\<open>TakeFramesWithHash\<close>.  The \<^verbatim>\<open>while\<close> loop walks the map with an iterator:
  \<open>kept\<close> holds the entries already passed and left in the map, the second list the
  entries from the iterator on, \<open>times'\<close> (the source's \<^verbatim>\<open>times\<close>) the keys collected so far.
\<close>

fun TakeFramesWithHash_loop ::
  "QMap \<Rightarrow> QMap \<Rightarrow> QByteArray \<Rightarrow> rational list \<Rightarrow> QMap \<times> rational list" where
  "TakeFramesWithHash_loop kept [] hash times' = (kept, times')"
| "TakeFramesWithHash_loop kept ((k, v) # rest) hash times' =
     (if v = hash then TakeFramesWithHash_loop kept rest hash (times' @ [k])
      else TakeFramesWithHash_loop (kept @ [(k, v)]) rest hash times')"

text \<open>The part of \<^verbatim>\<open>TakeFramesWithHash\<close> that runs with the lock held, up to and
  including \<^verbatim>\<open>locker.unlock()\<close>.\<close>

definition TakeFramesWithHash_locked ::
  "FrameHashCache \<Rightarrow> QByteArray \<Rightarrow> rational list \<times> FrameHashCache" where
  "TakeFramesWithHash_locked s hash =
     (let (m, times') = TakeFramesWithHash_loop [] (time_hash_map s) hash [] in
      (times',
       s\<lparr>time_hash_map := m,
         trace := trace s @ [Lock] @
           map (\<lambda>r. NoLockInvalidate \<lparr>range_in = r, range_out = r + timebase s\<rparr>) times' @
           [Unlock]\<rparr>))"

definition TakeFramesWithHash ::
  "FrameHashCache \<Rightarrow> QByteArray \<Rightarrow> rational list \<times> FrameHashCache" where
  "TakeFramesWithHash s hash =
     (let (times', s') = TakeFramesWithHash_locked s hash in
      (times',
       s'\<lparr>trace := trace s' @
           map (\<lambda>r. Invalidated \<lparr>range_in = r, range_out = r + timebase s'\<rparr>) times'\<rparr>))"

section \<open>Sample grid expansion\<close>

text \<open>
  Modelled from the spec: \<^verbatim>\<open>Timecode::snap_time_to_timebase\<close> (defined in
  common/timecodefunctions.cpp, which is not part of the sources at hand) snaps a
  time to the nearest grid instant, a whole multiple of the timebase.  The spec
  leaves the choice between two equally near instants open; \<open>round\<close> takes the
  later one.
\<close>

definition snap_time_to_timebase :: "rational \<Rightarrow> rational \<Rightarrow> rational" where
  "snap_time_to_timebase time tb = of_int (round (time / tb)) * tb"

text \<open>
  Modelled from the spec: \<^verbatim>\<open>TimeRangeList::RemoveTimeRange\<close> (defined in
  common/timerange.cpp, which is not part of the sources at hand) subtracts an
  interval from every interval of the list, which may shrink an interval,
  consume it or split it in two.  Subtracting an empty interval changes nothing.
\<close>

definition TimeRange_subtract :: "TimeRange \<Rightarrow> TimeRange \<Rightarrow> TimeRange list" where
  "TimeRange_subtract r remove =
     (if range_in r < range_in remove
      then [\<lparr>range_in = range_in r, range_out = min (range_out r) (range_in remove)\<rparr>]
      else []) @
     (if range_out remove < range_out r
      then [\<lparr>range_in = max (range_in r) (range_out remove), range_out = range_out r\<rparr>]
      else [])"

definition RemoveTimeRange :: "TimeRange list \<Rightarrow> TimeRange \<Rightarrow> TimeRange list" where
  "RemoveTimeRange range_list remove =
     (if range_out remove \<le> range_in remove then range_list
      else concat (map (\<lambda>r. TimeRange_subtract r remove) range_list))"

text \<open>
  The static \<^verbatim>\<open>GetFrameListFromTimeRange(range_list, timebase)\<close>.  Its \<^verbatim>\<open>while\<close>
  loop has no bound of its own, so the loop is a partial function: \<open>None\<close> is a
  call that never returns.
\<close>

partial_function (option) GetFrameListFromTimeRange_loop ::
  "TimeRange list \<Rightarrow> rational \<Rightarrow> rational list \<Rightarrow> rational list option" where
  "GetFrameListFromTimeRange_loop range_list tb times' =
     (case range_list of
        [] \<Rightarrow> Some times'
      | range' # _ \<Rightarrow>
          (let time = range_in range';
               snapped = snap_time_to_timebase time tb;
               next = (if snapped > time then snapped else snapped + tb);
               snapped = (if snapped > time then snapped - tb else snapped)
           in GetFrameListFromTimeRange_loop
                (RemoveTimeRange range_list \<lparr>range_in = snapped, range_out = next\<rparr>)
                tb (times' @ [snapped])))"

declare GetFrameListFromTimeRange_loop.simps [code]

definition GetFrameListFromTimeRange ::
  "TimeRange list \<Rightarrow> rational \<Rightarrow> rational list option" where
  "GetFrameListFromTimeRange range_list tb = GetFrameListFromTimeRange_loop range_list tb []"

text \<open>
  The measure of the loop, for a positive timebase: the number of grid cells
  \<open>[k * tb, (k + 1) * tb)\<close> an interval meets, counting an empty interval as one.
  \<open>cell_count\<close> is that number for an interval \<open>[x, y)\<close> in units of the timebase.
\<close>

definition cell_count :: "rat \<Rightarrow> rat \<Rightarrow> nat" where
  "cell_count x y = (if y \<le> x then 1 else nat (\<lceil>y\<rceil> - \<lfloor>x\<rfloor>))"

definition cells :: "rational \<Rightarrow> TimeRange \<Rightarrow> nat" where
  "cells tb r = cell_count (range_in r / tb) (range_out r / tb)"

section \<open>Edit reconciler\<close>

text \<open>The loops of \<^verbatim>\<open>LengthChangedEvent\<close> and \<^verbatim>\<open>InvalidateEvent\<close> erase the entries
  whose key meets a condition and step over the others.\<close>

fun LengthChangedEvent_loop :: "rational \<Rightarrow> QMap \<Rightarrow> QMap \<Rightarrow> QMap" where
  "LengthChangedEvent_loop newlen kept [] = kept"
| "LengthChangedEvent_loop newlen kept ((k, v) # rest) =
     (if k \<ge> newlen then LengthChangedEvent_loop newlen kept rest
      else LengthChangedEvent_loop newlen (kept @ [(k, v)]) rest)"

definition LengthChangedEvent :: "FrameHashCache \<Rightarrow> rational \<Rightarrow> rational \<Rightarrow> FrameHashCache" where
  "LengthChangedEvent s old newlen =
     (if newlen < old
      then s\<lparr>time_hash_map := LengthChangedEvent_loop newlen [] (time_hash_map s)\<rparr>
      else s)"

fun InvalidateEvent_loop :: "TimeRange \<Rightarrow> QMap \<Rightarrow> QMap \<Rightarrow> QMap" where
  "InvalidateEvent_loop r kept [] = kept"
| "InvalidateEvent_loop r kept ((k, v) # rest) =
     (if k \<ge> range_in r \<and> k < range_out r then InvalidateEvent_loop r kept rest
      else InvalidateEvent_loop r (kept @ [(k, v)]) rest)"

definition InvalidateEvent :: "FrameHashCache \<Rightarrow> TimeRange \<Rightarrow> FrameHashCache" where
  "InvalidateEvent s r = s\<lparr>time_hash_map := InvalidateEvent_loop r [] (time_hash_map s)\<rparr>"

record HashTimePair =
  pair_time :: rational
  pair_hash :: QByteArray

fun ShiftEvent_loop ::
  "rational \<Rightarrow> rational \<Rightarrow> rational \<Rightarrow> bool \<Rightarrow> QMap \<Rightarrow> QMap \<Rightarrow> HashTimePair list
     \<Rightarrow> QMap \<times> HashTimePair list" where
  "ShiftEvent_loop from to diff diff_is_negative kept [] shifted_times =
     (kept, shifted_times)"
| "ShiftEvent_loop from to diff diff_is_negative kept ((k, v) # rest) shifted_times =
     (if diff_is_negative \<and> k \<ge> to \<and> k < from
      then ShiftEvent_loop from to diff diff_is_negative kept rest shifted_times
      else if k \<ge> from
      then ShiftEvent_loop from to diff diff_is_negative kept rest
             (shifted_times @ [\<lparr>pair_time = k + diff, pair_hash = v\<rparr>])
      else ShiftEvent_loop from to diff diff_is_negative (kept @ [(k, v)]) rest
             shifted_times)"

definition ShiftEvent :: "FrameHashCache \<Rightarrow> rational \<Rightarrow> rational \<Rightarrow> FrameHashCache" where
  "ShiftEvent s from to =
     (let diff = to - from;
          diff_is_negative = (diff < 0);
          (m, shifted_times) =
            ShiftEvent_loop from to diff diff_is_negative [] (time_hash_map s) []
      in s\<lparr>time_hash_map :=
             foldl (\<lambda>m p. qmap_insert (pair_time p) (pair_hash p) m) m shifted_times\<rparr>)"

section \<open>Cache file names\<close>

text \<open>The pixel formats, as the \<^verbatim>\<open>switch\<close> of \<^verbatim>\<open>SaveCacheFrame\<close> lists them.\<close>

datatype Format =
    PIX_FMT_INVALID
  | PIX_FMT_RGB8
  | PIX_FMT_RGBA8
  | PIX_FMT_RGB16U
  | PIX_FMT_RGBA16U
  | PIX_FMT_RGB16F
  | PIX_FMT_RGBA16F
  | PIX_FMT_RGB32F
  | PIX_FMT_RGBA32F
  | PIX_FMT_COUNT

text \<open>
  Modelled from the spec: \<^verbatim>\<open>PixelFormat::FormatIsFloat\<close> (defined in
  render/pixelformat.cpp, which is not part of the sources at hand) holds of the
  floating-point formats: half or full precision, RGB or RGBA.
\<close>

fun FormatIsFloat :: "Format \<Rightarrow> bool" where
  "FormatIsFloat PIX_FMT_RGB16F = True"
| "FormatIsFloat PIX_FMT_RGBA16F = True"
| "FormatIsFloat PIX_FMT_RGB32F = True"
| "FormatIsFloat PIX_FMT_RGBA32F = True"
| "FormatIsFloat _ = False"

definition GetFormatExtension :: "Format \<Rightarrow> string" where
  "GetFormatExtension f = (if FormatIsFloat f then ''.exr'' else ''.jpg'')"

text \<open>\<^verbatim>\<open>QByteArray::toHex\<close>: two lower-case hexadecimal digits for each byte.\<close>

definition hex_digit :: "nat \<Rightarrow> char" where
  "hex_digit n = ''0123456789abcdef'' ! n"

definition toHex :: "QByteArray \<Rightarrow> string" where
  "toHex bs = concat (map (\<lambda>b. [hex_digit (unat b div 16), hex_digit (unat b mod 16)]) bs)"

text \<open>
  \<^verbatim>\<open>QDir\<close>, on a system whose separator is the slash.  A \<^verbatim>\<open>QDir\<close> built from a path
  keeps that path without a trailing separator (the root directory apart) and
  takes the current directory for an empty path.  \<^verbatim>\<open>QDir::filePath\<close> returns an
  absolute file name as it is, the directory's path for an empty file name, and
  otherwise joins path and file name with one separator.
\<close>

definition QDir :: "string \<Rightarrow> string" where
  "QDir path =
     (if path = [] then ''.''
      else if last path = CHR ''/'' \<and> length path > 1 then butlast path
      else path)"

definition filePath :: "string \<Rightarrow> string \<Rightarrow> string" where
  "filePath dir fn =
     (if fn \<noteq> [] \<and> hd fn = CHR ''/'' then fn
      else if fn = [] then dir
      else if dir = [] \<or> last dir = CHR ''/'' then dir @ fn
      else dir @ ''/'' @ fn)"

text \<open>
  \<^verbatim>\<open>CachePathName\<close>.  \<^verbatim>\<open>FileFunctions::GetMediaCacheLocation()\<close> is not part of the
  sources at hand; its result is the parameter \<open>cache_root\<close>.  The function returns
  the file name; the directory it creates on the way (\<^verbatim>\<open>mkpath\<close>) is
  \<open>CachePathName_dir\<close>.
\<close>

definition CachePathName_dir :: "string \<Rightarrow> QByteArray \<Rightarrow> string" where
  "CachePathName_dir cache_root hash = QDir (filePath (QDir cache_root) (toHex (take 1 hash)))"

definition CachePathName :: "string \<Rightarrow> QByteArray \<Rightarrow> Format \<Rightarrow> string" where
  "CachePathName cache_root hash pix_fmt =
     (let ext = GetFormatExtension pix_fmt;
          cache_dir = CachePathName_dir cache_root hash;
          filename = toHex (drop 1 hash) @ ext
      in filePath cache_dir filename)"

section \<open>Properties of the ordered map\<close>

lemma map_of_qmap_insert: "map_of (qmap_insert k v m) = (map_of m)(k \<mapsto> v)"
  by (induction m) (auto simp: fun_eq_iff)

lemma set_fst_qmap_insert: "fst ` set (qmap_insert k v m) = insert k (fst ` set m)"
  by (simp add: dom_map_of_conv_image_fst [symmetric] map_of_qmap_insert)

lemma qmap_inv_insert: "qmap_inv m \<Longrightarrow> qmap_inv (qmap_insert k v m)"
  unfolding qmap_inv_def
proof (induction m)
  case Nil
  then show ?case by simp
next
  case (Cons p m)
  obtain k' v' where p: "p = (k', v')" by (cases p)
  from Cons.prems have tl: "sorted_wrt (<) (map fst m)"
    and hd: "\<forall>x\<in>fst ` set m. k' < x" by (auto simp: p)
  show ?case
  proof (cases "k < k'")
    case True
    with Cons.prems show ?thesis by (auto simp: p)
  next
    case False
    show ?thesis
    proof (cases "k = k'")
      case True
      with Cons.prems show ?thesis by (auto simp: p)
    next
      case ne: False
      with False have lt: "k' < k" by simp
      have "\<forall>x\<in>fst ` set (qmap_insert k v m). k' < x"
        using hd lt by (simp add: set_fst_qmap_insert)
      with Cons.IH [OF tl] False ne show ?thesis by (auto simp: p)
    qed
  qed
qed

lemma SetHash_scan_iff:
  "SetHash_scan js time jt \<longleftrightarrow>
     (\<exists>job\<in>set js. Contains (job_range job) time \<and> word_sle (job_time job) jt)"
  by (induction js) auto

section \<open>The loops over the map, in closed form\<close>

lemma TakeFramesWithHash_loop_eq:
  "TakeFramesWithHash_loop kept m hash ts =
     (kept @ filter (\<lambda>(k, v). v \<noteq> hash) m, ts @ map fst (filter (\<lambda>(k, v). v = hash) m))"
  by (induction kept m hash ts rule: TakeFramesWithHash_loop.induct) auto

lemma LengthChangedEvent_loop_eq:
  "LengthChangedEvent_loop newlen kept m = kept @ filter (\<lambda>(k, v). k < newlen) m"
  by (induction newlen kept m rule: LengthChangedEvent_loop.induct) auto

lemma InvalidateEvent_loop_eq:
  "InvalidateEvent_loop r kept m = kept @ filter (\<lambda>(k, v). \<not> Contains r k) m"
  by (induction r kept m rule: InvalidateEvent_loop.induct) (auto simp: Contains_def)

lemma ShiftEvent_loop_eq:
  "ShiftEvent_loop fr to diff neg kept m sh =
     (kept @ filter (\<lambda>(k, v). k < fr \<and> \<not> (neg \<and> to \<le> k)) m,
      sh @ map (\<lambda>(k, v). \<lparr>pair_time = k + diff, pair_hash = v\<rparr>)
             (filter (\<lambda>(k, v). fr \<le> k) m))"
  by (induction fr to diff neg kept m sh rule: ShiftEvent_loop.induct) auto

lemma map_of_filter_key:
  "map_of (filter (\<lambda>(k, v). P k) m) k = (if P k then map_of m k else None)"
  by (induction m) auto

lemma qmap_inv_filter: "qmap_inv m \<Longrightarrow> qmap_inv (filter P m)"
  unfolding qmap_inv_def by (induction m) (auto)

lemma qmap_inv_distinct: "qmap_inv m \<Longrightarrow> distinct (map fst m)"
  unfolding qmap_inv_def by (simp add: strict_sorted_iff)

lemma map_of_filter_value:
  "distinct (map fst m) \<Longrightarrow>
   map_of (filter (\<lambda>(k, v). v \<noteq> h) m) k = (if map_of m k = Some h then None else map_of m k)"
proof (induction m)
  case Nil
  then show ?case by simp
next
  case (Cons p m)
  obtain a b where p: "p = (a, b)" by (cases p)
  from Cons.prems have "a \<notin> fst ` set m" and d: "distinct (map fst m)" by (simp_all add: p)
  then have none: "map_of m a = None" by (simp add: map_of_eq_None_iff)
  show ?case using Cons.IH [OF d] none by (cases "k = a") (auto simp: p)
qed

lemma set_keys_with_value:
  "distinct (map fst m) \<Longrightarrow>
   set (map fst (filter (\<lambda>(k, v). v = h) m)) = {k. map_of m k = Some h}"
proof (induction m)
  case Nil
  then show ?case by simp
next
  case (Cons p m)
  obtain a b where p: "p = (a, b)" by (cases p)
  from Cons.prems have "a \<notin> fst ` set m" and d: "distinct (map fst m)" by (simp_all add: p)
  then have none: "map_of m a = None" by (simp add: map_of_eq_None_iff)
  have "{k. map_of (p # m) k = Some h} = (if b = h then {a} else {}) \<union> {k. map_of m k = Some h}"
    using none by (auto simp: p)
  then show ?case using Cons.IH [OF d] by (simp add: p)
qed

section \<open>Reinserting shifted entries\<close>

lemma map_of_foldl_insert:
  "map_of (foldl (\<lambda>m p. qmap_insert (pair_time p) (pair_hash p) m) m ps) =
     map_of m ++ map_of (rev (map (\<lambda>p. (pair_time p, pair_hash p)) ps))"
proof (induction ps arbitrary: m)
  case Nil
  then show ?case by simp
next
  case (Cons p ps)
  show ?case
    by (simp add: Cons.IH map_of_qmap_insert map_add_upd_left fun_eq_iff map_add_def split: option.splits)
qed

lemma qmap_inv_foldl_insert:
  "qmap_inv m \<Longrightarrow> qmap_inv (foldl (\<lambda>m p. qmap_insert (pair_time p) (pair_hash p) m) m ps)"
  by (induction ps arbitrary: m) (simp_all add: qmap_inv_insert)

lemma map_of_shift_keys:
  "map_of (map (\<lambda>(k, v). (k + d, v)) xs) k = map_of xs (k - d)" for d :: rat
  by (induction xs) auto

lemma distinct_shift_keys:
  "distinct (map fst xs) \<Longrightarrow> distinct (map fst (map (\<lambda>(k, v). (k + d, v)) xs))" for d :: rat
proof -
  have "map fst (map (\<lambda>(k, v). (k + d, v)) xs) = map (\<lambda>k. k + d) (map fst xs)"
    by (induction xs) auto
  moreover assume "distinct (map fst xs)"
  ultimately show ?thesis by (simp add: distinct_map inj_on_def)
qed


lemma qmap_eqI:
  assumes "qmap_inv a" "qmap_inv b" "map_of a = map_of b"
  shows "a = b"
proof -
  have da: "distinct (map fst a)" and db: "distinct (map fst b)"
    using assms by (simp_all add: qmap_inv_distinct)
  have sa: "sorted (map fst a)" and sb: "sorted (map fst b)"
    using assms by (simp_all add: qmap_inv_def strict_sorted_iff)
  from da db assms(3) have eq: "set a = set b" by (simp add: map_of_inject_set)
  from da have "inj_on fst (set a)" by (simp add: distinct_map)
  with eq have "inj_on fst (set a \<union> set b)" by simp
  then show ?thesis using sa da sb db eq by (rule map_sorted_distinct_set_unique)
qed

lemma map_of_rev_distinct:
  "distinct (map fst xs) \<Longrightarrow> map_of (rev xs) = map_of xs"
proof (induction xs)
  case Nil
  then show ?case by simp
next
  case (Cons p xs)
  obtain a b where p: "p = (a, b)" by (cases p)
  from Cons.prems have "a \<notin> fst ` set xs" and d: "distinct (map fst xs)" by (simp_all add: p)
  then have none: "map_of xs a = None" by (simp add: map_of_eq_None_iff)
  show ?case using Cons.IH [OF d] none
    by (auto simp: p fun_eq_iff map_add_def split: option.splits)
qed

lemma ShiftEvent_eq:
  "ShiftEvent s fr to =
     s\<lparr>time_hash_map :=
         foldl (\<lambda>m p. qmap_insert (pair_time p) (pair_hash p) m)
           (filter (\<lambda>(k, v). k < fr \<and> \<not> (to - fr < 0 \<and> to \<le> k)) (time_hash_map s))
           (map (\<lambda>(k, v). \<lparr>pair_time = k + (to - fr), pair_hash = v\<rparr>)
              (filter (\<lambda>(k, v). fr \<le> k) (time_hash_map s)))\<rparr>"
  by (simp add: ShiftEvent_def ShiftEvent_loop_eq Let_def)

lemma shifted_pairs:
  "map (\<lambda>p. (pair_time p, pair_hash p))
     (map (\<lambda>(k, v). \<lparr>pair_time = k + d, pair_hash = v\<rparr>) xs) =
   map (\<lambda>(k, v). (k + d, v)) xs"
  by (induction xs) auto

lemma ShiftEvent_lookup:
  assumes "qmap_inv (time_hash_map s)"
  shows "map_of (time_hash_map (ShiftEvent s fr to)) k =
     (if k < fr \<and> k < to then map_of (time_hash_map s) k
      else if to \<le> k then map_of (time_hash_map s) (k - (to - fr))
      else None)"
proof -
  let ?m = "time_hash_map s"
  let ?up = "filter (\<lambda>(k, v). fr \<le> k) ?m"
  let ?sh = "map (\<lambda>(k, v). (k + (to - fr), v)) ?up"
  let ?kept = "filter (\<lambda>(k, v). k < fr \<and> \<not> (to - fr < 0 \<and> to \<le> k)) ?m"
  from assms have d: "distinct (map fst ?m)" by (rule qmap_inv_distinct)
  then have "distinct (map fst ?up)" by (simp add: distinct_map_filter)
  then have "distinct (map fst ?sh)" by (rule distinct_shift_keys)
  then have rev: "map_of (rev ?sh) = map_of ?sh" by (rule map_of_rev_distinct)
  have sh: "map_of ?sh k = (if fr \<le> k - (to - fr) then map_of ?m (k - (to - fr)) else None)"
    by (simp only: map_of_shift_keys map_of_filter_key)
  have kept: "map_of ?kept k =
      (if k < fr \<and> \<not> (to - fr < 0 \<and> to \<le> k) then map_of ?m k else None)"
    by (rule map_of_filter_key)
  have "map_of (time_hash_map (ShiftEvent s fr to)) k = (map_of ?kept ++ map_of ?sh) k"
    by (simp add: ShiftEvent_eq map_of_foldl_insert shifted_pairs rev del: map_map)
  also have "\<dots> = (if k < fr \<and> k < to then map_of ?m k
      else if to \<le> k then map_of ?m (k - (to - fr))
      else None)"
    unfolding map_add_def sh kept by (auto split: option.splits)
  finally show ?thesis .
qed

lemma qmap_inv_ShiftEvent:
  "qmap_inv (time_hash_map s) \<Longrightarrow> qmap_inv (time_hash_map (ShiftEvent s fr to))"
  by (simp add: ShiftEvent_eq qmap_inv_foldl_insert qmap_inv_filter)

section \<open>Hex encoding and path joining\<close>

lemma hex_digit_not_slash: "n < 16 \<Longrightarrow> hex_digit n \<noteq> CHR ''/''"
  by (simp add: hex_digit_def nth_Cons')

lemma toHex_Cons:
  "toHex (b # bs) = hex_digit (unat b div 16) # hex_digit (unat b mod 16) # toHex bs"
  by (simp add: toHex_def)

lemma toHex_Nil: "toHex [] = []"
  by (simp add: toHex_def)

lemma unat_byte_div: "unat (b :: 8 word) div 16 < 16"
proof -
  have "unat b < 256" using unsigned_less [of b] by simp
  then show ?thesis by simp
qed

lemma filePath_join:
  "dir \<noteq> [] \<Longrightarrow> last dir \<noteq> CHR ''/'' \<Longrightarrow> fn \<noteq> [] \<Longrightarrow> hd fn \<noteq> CHR ''/'' \<Longrightarrow>
   filePath dir fn = dir @ ''/'' @ fn"
  by (simp add: filePath_def)

lemma QDir_plain: "path \<noteq> [] \<Longrightarrow> last path \<noteq> CHR ''/'' \<Longrightarrow> QDir path = path"
  by (simp add: QDir_def)

section \<open>The expansion loop\<close>

lemma loop_Nil: "GetFrameListFromTimeRange_loop [] tb acc = Some acc"
  by (subst GetFrameListFromTimeRange_loop.simps) simp

lemma loop_Cons:
  "GetFrameListFromTimeRange_loop (r # rest) tb acc =
     (let time = range_in r;
          snapped = snap_time_to_timebase time tb;
          next = (if snapped > time then snapped else snapped + tb);
          snapped = (if snapped > time then snapped - tb else snapped)
      in GetFrameListFromTimeRange_loop
           (RemoveTimeRange (r # rest) \<lparr>range_in = snapped, range_out = next\<rparr>)
           tb (acc @ [snapped]))"
  by (subst GetFrameListFromTimeRange_loop.simps) simp

lemma loop_acc:
  assumes "GetFrameListFromTimeRange_loop rl tb acc = Some ys"
  shows "\<exists>zs. ys = acc @ zs \<and>
     (\<forall>acc'. GetFrameListFromTimeRange_loop rl tb acc' = Some (acc' @ zs))"
proof (rule GetFrameListFromTimeRange_loop.raw_induct [OF _ assms])
  fix f rl tb acc ys
  assume IH: "\<And>rl tb acc ys. f rl tb acc = Some ys \<Longrightarrow>
     \<exists>zs. ys = acc @ zs \<and>
       (\<forall>acc'. GetFrameListFromTimeRange_loop rl tb acc' = Some (acc' @ zs))"
  assume step: "(case rl of
        [] \<Rightarrow> Some acc
      | range' # _ \<Rightarrow>
          (let time = range_in range';
               snapped = snap_time_to_timebase time tb;
               next = (if snapped > time then snapped else snapped + tb);
               snapped = (if snapped > time then snapped - tb else snapped)
           in f (RemoveTimeRange rl \<lparr>range_in = snapped, range_out = next\<rparr>)
                tb (acc @ [snapped]))) = Some ys"
  show "\<exists>zs. ys = acc @ zs \<and>
     (\<forall>acc'. GetFrameListFromTimeRange_loop rl tb acc' = Some (acc' @ zs))"
  proof (cases rl)
    case Nil
    with step have "ys = acc" by simp
    then show ?thesis by (simp add: Nil loop_Nil)
  next
    case (Cons r rest)
    let ?t = "range_in r"
    let ?sn = "snap_time_to_timebase ?t tb"
    let ?nx = "if ?sn > ?t then ?sn else ?sn + tb"
    let ?sel = "if ?sn > ?t then ?sn - tb else ?sn"
    let ?rl' = "RemoveTimeRange (r # rest) \<lparr>range_in = ?sel, range_out = ?nx\<rparr>"
    from step have "f ?rl' tb (acc @ [?sel]) = Some ys"
      by (simp add: Cons Let_def split del: if_split)
    from IH [OF this] obtain zs where ys: "ys = (acc @ [?sel]) @ zs"
      and all: "\<And>acc'. GetFrameListFromTimeRange_loop ?rl' tb acc' = Some (acc' @ zs)"
      by blast
    have "\<forall>acc'. GetFrameListFromTimeRange_loop rl tb acc' = Some (acc' @ (?sel # zs))"
      using all by (simp add: Cons loop_Cons Let_def split del: if_split)
    with ys show ?thesis by auto
  qed
qed

lemma loop_step:
  "GetFrameListFromTimeRange_loop rl tb acc =
     map_option ((@) acc) (GetFrameListFromTimeRange_loop rl tb [])"
proof (cases "GetFrameListFromTimeRange_loop rl tb []")
  case None
  have "GetFrameListFromTimeRange_loop rl tb acc = None"
  proof (rule ccontr)
    assume "GetFrameListFromTimeRange_loop rl tb acc \<noteq> None"
    then obtain ys where "GetFrameListFromTimeRange_loop rl tb acc = Some ys" by auto
    from loop_acc [OF this] None show False by auto
  qed
  with None show ?thesis by simp
next
  case (Some zs)
  from loop_acc [OF this] show ?thesis by (auto simp: Some)
qed

lemma empty_remove_range:
  "tb \<le> 0 \<Longrightarrow>
   RemoveTimeRange rl
     \<lparr>range_in = (if sn > t then sn - tb else sn),
      range_out = (if sn > t then sn else sn + tb)\<rparr> = rl"
  by (simp add: RemoveTimeRange_def)

lemma loop_diverges:
  assumes "GetFrameListFromTimeRange_loop rl tb acc = Some ys"
  shows "tb \<le> 0 \<longrightarrow> rl = []"
proof (rule GetFrameListFromTimeRange_loop.raw_induct [OF _ assms])
  fix f :: "TimeRange list \<Rightarrow> rat \<Rightarrow> rat list \<Rightarrow> rat list option"
    and rl :: "TimeRange list" and tb :: rat and acc ys :: "rat list"
  assume IH: "\<And>rl tb acc ys. f rl tb acc = Some ys \<Longrightarrow> tb \<le> 0 \<longrightarrow> rl = []"
  assume step: "(case rl of
        [] \<Rightarrow> Some acc
      | range' # _ \<Rightarrow>
          (let time = range_in range';
               snapped = snap_time_to_timebase time tb;
               next = (if snapped > time then snapped else snapped + tb);
               snapped = (if snapped > time then snapped - tb else snapped)
           in f (RemoveTimeRange rl \<lparr>range_in = snapped, range_out = next\<rparr>)
                tb (acc @ [snapped]))) = Some ys"
  show "tb \<le> 0 \<longrightarrow> rl = []"
  proof (cases rl)
    case Nil
    then show ?thesis by simp
  next
    case (Cons r rest)
    show ?thesis
    proof
      assume tb: "tb \<le> 0"
      let ?t = "range_in r"
      let ?sn = "snap_time_to_timebase ?t tb"
      let ?nx = "if ?sn > ?t then ?sn else ?sn + tb"
      let ?sel = "if ?sn > ?t then ?sn - tb else ?sn"
      from step have "f (RemoveTimeRange rl \<lparr>range_in = ?sel, range_out = ?nx\<rparr>) tb
          (acc @ [?sel]) = Some ys"
        by (simp add: Cons Let_def split del: if_split)
      then have "f rl tb (acc @ [?sel]) = Some ys"
        by (simp only: empty_remove_range [OF tb])
      from IH [OF this] tb show "rl = []" by simp
    qed
  qed
qed

section \<open>Termination of the expansion loop\<close>

lemma snap_floor:
  assumes "0 < tb"
  shows "(if snap_time_to_timebase t tb > t then snap_time_to_timebase t tb - tb
          else snap_time_to_timebase t tb) = of_int \<lfloor>t / tb\<rfloor> * tb"
proof -
  define q where "q = t / tb"
  define n where "n = round q"
  have t: "t = q * tb" using assms by (simp add: q_def)
  have sn: "snap_time_to_timebase t tb = of_int n * tb"
    by (simp add: snap_time_to_timebase_def n_def q_def)
  have gt: "snap_time_to_timebase t tb > t \<longleftrightarrow> q < of_int n"
    unfolding sn using assms by (subst t) simp
  have le: "of_int n \<le> q + 1 / 2" unfolding n_def by (rule of_int_round_le)
  have ge: "q - 1 / 2 < of_int n" unfolding n_def by (rule of_int_round_gt)
  show ?thesis
  proof (cases "q < of_int n")
    case True
    have "\<lfloor>q\<rfloor> = n - 1" using True le by (intro floor_unique) auto
    then have fl: "\<lfloor>t / tb\<rfloor> = n - 1" by (simp add: q_def)
    from True gt have g: "of_int n * tb > t" by (simp add: sn)
    show ?thesis unfolding sn fl by (simp only: g if_True) (simp add: algebra_simps)
  next
    case False
    have "\<lfloor>q\<rfloor> = n" using False ge by (intro floor_unique) auto
    then have fl: "\<lfloor>t / tb\<rfloor> = n" by (simp add: q_def)
    from False gt have g: "\<not> of_int n * tb > t" by (simp add: sn)
    show ?thesis unfolding sn fl by (simp only: g if_False)
  qed
qed

lemma snap_next:
  "(if snap_time_to_timebase t tb > t then snap_time_to_timebase t tb
    else snap_time_to_timebase t tb + tb) =
   (if snap_time_to_timebase t tb > t then snap_time_to_timebase t tb - tb
    else snap_time_to_timebase t tb) + tb"
  by simp

lemma ceiling_min: "\<lceil>min y (of_int k)\<rceil> = min \<lceil>y\<rceil> k" for y :: rat
  by (simp add: min_def ceiling_le_iff)

lemma floor_max: "\<lfloor>max x (of_int k)\<rfloor> = max \<lfloor>x\<rfloor> k" for x :: rat
proof (cases "x \<le> of_int k")
  case True
  then have "\<lfloor>x\<rfloor> \<le> k" by (simp add: floor_le_iff)
  with True show ?thesis by (simp add: max_def)
next
  case False
  then have "k \<le> \<lfloor>x\<rfloor>" by (simp add: le_floor_iff)
  with False show ?thesis by (simp add: max_def)
qed

lemma floor_less_ceiling: "x < y \<Longrightarrow> \<lfloor>x\<rfloor> < \<lceil>y\<rceil>" for x y :: rat
  by (meson floor_less_iff less_ceiling_iff of_int_floor_le order_le_less_trans le_of_int_ceiling less_le_trans)

lemma cell_count_right:
  assumes "x < y" and "of_int k + 1 < y"
  shows "cell_count (max x (of_int k + 1)) y = nat (\<lceil>y\<rceil> - max \<lfloor>x\<rfloor> (k + 1))"
proof -
  have "\<lfloor>max x (of_int k + 1)\<rfloor> = max \<lfloor>x\<rfloor> (k + 1)"
    using floor_max [of x "k + 1"] by simp
  moreover have "\<not> y \<le> max x (of_int k + 1)" using assms by simp
  ultimately show ?thesis by (simp only: cell_count_def if_False)
qed

lemma cell_count_left:
  assumes "x < y" and "x < of_int k"
  shows "cell_count x (min y (of_int k)) = nat (min \<lceil>y\<rceil> k - \<lfloor>x\<rfloor>)"
proof -
  have "\<not> min y (of_int k) \<le> x" using assms by simp
  then show ?thesis by (simp only: cell_count_def if_False ceiling_min)
qed

lemma cell_count_split_le:
  fixes x y :: rat and k :: int
  shows "(if x < of_int k then cell_count x (min y (of_int k)) else 0) +
         (if of_int k + 1 < y then cell_count (max x (of_int k + 1)) y else 0) \<le> cell_count x y"
proof (cases "y \<le> x")
  case True
  then show ?thesis by (auto simp: cell_count_def)
next
  case False
  then have xy: "x < y" by simp
  then have fc: "\<lfloor>x\<rfloor> < \<lceil>y\<rceil>" by (rule floor_less_ceiling)
  have lk: "x < of_int k \<Longrightarrow> \<lfloor>x\<rfloor> < k" by (simp add: floor_less_iff)
  have rk: "of_int k + 1 < y \<Longrightarrow> k + 1 < \<lceil>y\<rceil>" by (simp add: less_ceiling_iff)
  have cxy: "cell_count x y = nat (\<lceil>y\<rceil> - \<lfloor>x\<rfloor>)" using False by (simp add: cell_count_def)
  show ?thesis
  proof (cases "x < of_int k")
    case l: True
    show ?thesis
    proof (cases "of_int k + 1 < y")
      case r: True
      show ?thesis using fc lk [OF l] rk [OF r]
        by (simp only: l r if_True cell_count_left [OF xy l] cell_count_right [OF xy r] cxy; simp)
    next
      case r: False
      show ?thesis using fc lk [OF l]
        by (simp only: l r if_True if_False cell_count_left [OF xy l] cxy; simp)
    qed
  next
    case l: False
    show ?thesis
    proof (cases "of_int k + 1 < y")
      case r: True
      show ?thesis using fc rk [OF r]
        by (simp only: l r if_True if_False cell_count_right [OF xy r] cxy; simp)
    next
      case r: False
      show ?thesis by (simp only: l r if_False; simp)
    qed
  qed
qed

lemma cell_count_split_less:
  fixes x y :: rat and k :: int
  assumes lo: "of_int k \<le> x" and hi: "x < of_int k + 1"
  shows "(if x < of_int k then cell_count x (min y (of_int k)) else 0) +
         (if of_int k + 1 < y then cell_count (max x (of_int k + 1)) y else 0) < cell_count x y"
proof (cases "y \<le> x")
  case True
  then show ?thesis using lo hi by (auto simp: cell_count_def)
next
  case False
  then have xy: "x < y" by simp
  then have fc: "\<lfloor>x\<rfloor> < \<lceil>y\<rceil>" by (rule floor_less_ceiling)
  have fx: "\<lfloor>x\<rfloor> = k" using lo hi by (intro floor_unique) auto
  have rk: "of_int k + 1 < y \<Longrightarrow> k + 1 < \<lceil>y\<rceil>" by (simp add: less_ceiling_iff)
  have cxy: "cell_count x y = nat (\<lceil>y\<rceil> - \<lfloor>x\<rfloor>)" using False by (simp add: cell_count_def)
  have l: "\<not> x < of_int k" using lo by simp
  show ?thesis
  proof (cases "of_int k + 1 < y")
    case r: True
    show ?thesis using fc rk [OF r]
      by (simp only: l r if_True if_False cell_count_right [OF xy r] cxy fx; simp)
  next
    case r: False
    show ?thesis using fc by (simp only: l r if_False cxy fx; simp)
  qed
qed

lemma min_divide_pos: "0 < tb \<Longrightarrow> min a b / tb = min (a / tb) (b / tb)" for tb :: rat
  by (simp add: min_def divide_le_cancel)

lemma max_divide_pos: "0 < tb \<Longrightarrow> max a b / tb = max (a / tb) (b / tb)" for tb :: rat
  by (simp add: max_def divide_le_cancel)

lemma cells_subtract:
  assumes tb: "0 < tb"
  shows "sum_list (map (cells tb)
           (TimeRange_subtract r \<lparr>range_in = of_int k * tb, range_out = of_int k * tb + tb\<rparr>)) =
         (if range_in r / tb < of_int k
          then cell_count (range_in r / tb) (min (range_out r / tb) (of_int k)) else 0) +
         (if of_int k + 1 < range_out r / tb
          then cell_count (max (range_in r / tb) (of_int k + 1)) (range_out r / tb) else 0)"
proof -
  have l: "range_in r < of_int k * tb \<longleftrightarrow> range_in r / tb < of_int k"
    using tb by (simp add: pos_divide_less_eq)
  have "of_int k * tb + tb = (of_int k + 1) * tb" by (simp add: algebra_simps)
  then have r: "of_int k * tb + tb < range_out r \<longleftrightarrow> of_int k + 1 < range_out r / tb"
    using tb by (simp add: pos_less_divide_eq)
  have mn: "min (range_out r) (of_int k * tb) / tb = min (range_out r / tb) (of_int k)"
    using tb by (simp add: min_divide_pos)
  have mx: "max (range_in r) (of_int k * tb + tb) / tb = max (range_in r / tb) (of_int k + 1)"
    using tb by (simp add: max_divide_pos add_divide_distrib)
  show ?thesis
    by (simp add: TimeRange_subtract_def cells_def l r mn mx del: of_int_add)
qed

lemma cells_RemoveTimeRange_le:
  assumes tb: "0 < tb"
  shows "sum_list (map (cells tb)
           (RemoveTimeRange rl \<lparr>range_in = of_int k * tb, range_out = of_int k * tb + tb\<rparr>))
         \<le> sum_list (map (cells tb) rl)"
proof -
  have one: "sum_list (map (cells tb)
           (TimeRange_subtract r \<lparr>range_in = of_int k * tb, range_out = of_int k * tb + tb\<rparr>))
         \<le> cells tb r" for r
    unfolding cells_subtract [OF tb] cells_def by (rule cell_count_split_le)
  have "sum_list (map (cells tb) (concat (map (\<lambda>r. TimeRange_subtract r
           \<lparr>range_in = of_int k * tb, range_out = of_int k * tb + tb\<rparr>) rl)))
         \<le> sum_list (map (cells tb) rl)"
  proof (induction rl)
    case Nil
    then show ?case by simp
  next
    case (Cons r rl)
    then show ?case using one [of r] by simp
  qed
  then show ?thesis using tb by (simp add: RemoveTimeRange_def)
qed

lemma cells_RemoveTimeRange_less:
  assumes tb: "0 < tb"
    and lo: "of_int k * tb \<le> range_in r" and hi: "range_in r < of_int k * tb + tb"
  shows "sum_list (map (cells tb)
           (RemoveTimeRange (r # rest)
              \<lparr>range_in = of_int k * tb, range_out = of_int k * tb + tb\<rparr>))
         < sum_list (map (cells tb) (r # rest))"
proof -
  let ?rm = "\<lparr>range_in = of_int k * tb, range_out = of_int k * tb + tb\<rparr>"
  have lo': "of_int k \<le> range_in r / tb" using tb lo by (simp add: pos_le_divide_eq)
  have "of_int k * tb + tb = (of_int k + 1) * tb" by (simp add: algebra_simps)
  with hi have hi': "range_in r / tb < of_int k + 1" using tb by (simp add: pos_divide_less_eq)
  have hd: "sum_list (map (cells tb) (TimeRange_subtract r ?rm)) < cells tb r"
    unfolding cells_subtract [OF tb] cells_def using lo' hi' by (rule cell_count_split_less)
  have tl: "sum_list (map (cells tb) (RemoveTimeRange rest ?rm)) \<le> sum_list (map (cells tb) rest)"
    using tb by (rule cells_RemoveTimeRange_le)
  have "RemoveTimeRange (r # rest) ?rm = TimeRange_subtract r ?rm @ RemoveTimeRange rest ?rm"
    using tb by (simp add: RemoveTimeRange_def)
  with hd tl show ?thesis by simp
qed

lemma loop_terminates:
  assumes tb: "0 < tb"
  shows "\<exists>ys. GetFrameListFromTimeRange_loop rl tb acc = Some ys"
proof (induction "sum_list (map (cells tb) rl)" arbitrary: rl acc rule: less_induct)
  case less
  show ?case
  proof (cases rl)
    case Nil
    then show ?thesis by (simp add: loop_Nil)
  next
    case (Cons r rest)
    let ?t = "range_in r"
    let ?sn = "snap_time_to_timebase ?t tb"
    let ?nx = "if ?sn > ?t then ?sn else ?sn + tb"
    let ?sel = "if ?sn > ?t then ?sn - tb else ?sn"
    define k where "k = \<lfloor>?t / tb\<rfloor>"
    have sel: "?sel = of_int k * tb" unfolding k_def using tb by (rule snap_floor)
    have nx: "?nx = of_int k * tb + tb" unfolding sel [symmetric] by (rule snap_next)
    have "of_int k \<le> ?t / tb" unfolding k_def by (rule of_int_floor_le)
    then have lo: "of_int k * tb \<le> ?t" using tb by (simp add: pos_le_divide_eq)
    have "?t / tb < of_int k + 1" unfolding k_def by linarith
    then have "?t < (of_int k + 1) * tb" using tb by (simp add: pos_divide_less_eq)
    then have hi: "?t < of_int k * tb + tb" by (simp add: algebra_simps)
    let ?rl' = "RemoveTimeRange (r # rest) \<lparr>range_in = ?sel, range_out = ?nx\<rparr>"
    have "sum_list (map (cells tb) ?rl') < sum_list (map (cells tb) rl)"
      unfolding sel nx Cons using tb lo hi by (rule cells_RemoveTimeRange_less)
    from less [OF this] obtain ys where
      "GetFrameListFromTimeRange_loop ?rl' tb (acc @ [?sel]) = Some ys" by blast
    then show ?thesis by (simp add: Cons loop_Cons Let_def split del: if_split)
  qed
qed

section \<open>Claims\<close>

text \<open>
  C1.  \<^verbatim>\<open>SetHash(time, hash, job_time)\<close> treats the completion as current exactly
  when the scan of the job list, most recently submitted job first, finds a job
  whose range contains \<open>time\<close> and whose \<open>job_time\<close> is at most the incoming one
  (which is the case exactly when the list holds such a job).  When current,
  \<open>(time, hash)\<close> is inserted into the hash index, replacing any value stored for
  that timestamp and leaving every other timestamp as it was, the interval
  \<open>[time, time + timebase)\<close> is validated in the ledger under the lock, and after
  the lock is released one \<^verbatim>\<open>Validated\<close> signal carrying that interval is emitted.
  When no such job exists the call only takes and releases the lock: the hash
  index is unchanged, nothing is validated and nothing is emitted.
\<close>

theorem C1_SetHash_currency:
  "(SetHash_scan (rev (jobs s)) time jt \<longleftrightarrow>
      (\<exists>job\<in>set (jobs s). Contains (job_range job) time \<and> word_sle (job_time job) jt)) \<and>
   SetHash s time hash jt =
     (if \<exists>job\<in>set (jobs s). Contains (job_range job) time \<and> word_sle (job_time job) jt
      then s\<lparr>time_hash_map := qmap_insert time hash (time_hash_map s),
             trace := trace s @
               [Lock, NoLockValidate \<lparr>range_in = time, range_out = time + timebase s\<rparr>,
                Unlock, Validated \<lparr>range_in = time, range_out = time + timebase s\<rparr>]\<rparr>
      else s\<lparr>trace := trace s @ [Lock, Unlock]\<rparr>) \<and>
   map_of (qmap_insert time hash (time_hash_map s)) = (map_of (time_hash_map s))(time \<mapsto> hash)"
  by (auto simp: SetHash_def SetHash_scan_iff map_of_qmap_insert Let_def)

text \<open>
  The theorem at a cache with an older job over \<open>[0, 10)\<close> with order token 5 and a
  newer job over \<open>[0, 2)\<close> with order token 9: a completion for time 1 with token 7
  is current through the older job and replaces the hash stored at 1, and a
  completion for time 12 is dropped.
\<close>

theorem C1_SetHash_currency_witness:
  "SetHash
     \<lparr>time_hash_map = [(0, [1]), (1, [2])], timebase = 1 / 24,
      jobs = [\<lparr>job_range = \<lparr>range_in = 0, range_out = 10\<rparr>, job_time = 5\<rparr>,
              \<lparr>job_range = \<lparr>range_in = 0, range_out = 2\<rparr>, job_time = 9\<rparr>],
      trace = []\<rparr> 1 [171] 7 =
     \<lparr>time_hash_map = [(0, [1]), (1, [171])], timebase = 1 / 24,
      jobs = [\<lparr>job_range = \<lparr>range_in = 0, range_out = 10\<rparr>, job_time = 5\<rparr>,
              \<lparr>job_range = \<lparr>range_in = 0, range_out = 2\<rparr>, job_time = 9\<rparr>],
      trace = [Lock, NoLockValidate \<lparr>range_in = 1, range_out = 25 / 24\<rparr>, Unlock,
               Validated \<lparr>range_in = 1, range_out = 25 / 24\<rparr>]\<rparr> \<and>
   SetHash
     \<lparr>time_hash_map = [(0, [1]), (1, [2])], timebase = 1 / 24,
      jobs = [\<lparr>job_range = \<lparr>range_in = 0, range_out = 10\<rparr>, job_time = 5\<rparr>,
              \<lparr>job_range = \<lparr>range_in = 0, range_out = 2\<rparr>, job_time = 9\<rparr>],
      trace = []\<rparr> 12 [171] 7 =
     \<lparr>time_hash_map = [(0, [1]), (1, [2])], timebase = 1 / 24,
      jobs = [\<lparr>job_range = \<lparr>range_in = 0, range_out = 10\<rparr>, job_time = 5\<rparr>,
              \<lparr>job_range = \<lparr>range_in = 0, range_out = 2\<rparr>, job_time = 9\<rparr>],
      trace = [Lock, Unlock]\<rparr>"
  using
    C1_SetHash_currency [where time = 1 and jt = 7 and hash = "[171]" and
      s = "\<lparr>time_hash_map = [(0, [1]), (1, [2])], timebase = 1 / 24,
            jobs = [\<lparr>job_range = \<lparr>range_in = 0, range_out = 10\<rparr>, job_time = 5\<rparr>,
                    \<lparr>job_range = \<lparr>range_in = 0, range_out = 2\<rparr>, job_time = 9\<rparr>],
            trace = []\<rparr>"]
    C1_SetHash_currency [where time = 12 and jt = 7 and hash = "[171]" and
      s = "\<lparr>time_hash_map = [(0, [1]), (1, [2])], timebase = 1 / 24,
            jobs = [\<lparr>job_range = \<lparr>range_in = 0, range_out = 10\<rparr>, job_time = 5\<rparr>,
                    \<lparr>job_range = \<lparr>range_in = 0, range_out = 2\<rparr>, job_time = 9\<rparr>],
            trace = []\<rparr>"]
  by (simp add: Contains_def)

text \<open>
  C2.  On a hash index with strictly ascending keys, \<^verbatim>\<open>TakeFramesWithHash(hash)\<close>
  removes every entry mapped to \<open>hash\<close> and no other entry, and returns exactly
  the removed timestamps, each once, in ascending order; a lookup of a returned
  timestamp in the resulting index finds nothing (\<^verbatim>\<open>GetHash\<close> returns the empty
  byte array).  With the lock held, after the removal, the interval
  \<open>[t, t + timebase)\<close> of each removed timestamp is invalidated in the ledger; the
  lock is released; then one \<^verbatim>\<open>Invalidated\<close> signal is emitted for each of these
  intervals.  The state at the release of the lock already holds the final hash
  index, so all signals come after all mutation.
\<close>

theorem C2_TakeFramesWithHash:
  assumes "qmap_inv (time_hash_map s)"
  shows "(case TakeFramesWithHash s hash of (ts, s') \<Rightarrow>
     ts = map fst (filter (\<lambda>(k, v). v = hash) (time_hash_map s)) \<and>
     set ts = {t. map_of (time_hash_map s) t = Some hash} \<and>
     distinct ts \<and>
     time_hash_map s' = filter (\<lambda>(k, v). v \<noteq> hash) (time_hash_map s) \<and>
     (\<forall>t. map_of (time_hash_map s') t =
           (if map_of (time_hash_map s) t = Some hash then None
            else map_of (time_hash_map s) t)) \<and>
     (\<forall>t\<in>set ts. map_of (time_hash_map s') t = None \<and> fst (GetHash s' t) = []) \<and>
     trace s' = trace s @ [Lock] @
        map (\<lambda>t. NoLockInvalidate \<lparr>range_in = t, range_out = t + timebase s\<rparr>) ts @
        [Unlock] @
        map (\<lambda>t. Invalidated \<lparr>range_in = t, range_out = t + timebase s\<rparr>) ts \<and>
     TakeFramesWithHash_locked s hash =
       (ts, s'\<lparr>trace := trace s @ [Lock] @
             map (\<lambda>t. NoLockInvalidate \<lparr>range_in = t, range_out = t + timebase s\<rparr>) ts @
             [Unlock]\<rparr>) \<and>
     timebase s' = timebase s \<and> jobs s' = jobs s)"
proof -
  let ?m = "time_hash_map s"
  let ?ts = "map fst (filter (\<lambda>(k, v). v = hash) ?m)"
  let ?m' = "filter (\<lambda>(k, v). v \<noteq> hash) ?m"
  from assms have d: "distinct (map fst ?m)" by (rule qmap_inv_distinct)
  have set_ts: "set ?ts = {t. map_of ?m t = Some hash}"
    using d by (rule set_keys_with_value)
  have dist_ts: "distinct ?ts" using d by (simp add: distinct_map_filter)
  have look: "\<And>t. map_of ?m' t = (if map_of ?m t = Some hash then None else map_of ?m t)"
    using d by (rule map_of_filter_value)
  have gone: "\<forall>t\<in>set ?ts. map_of ?m' t = None"
    unfolding set_ts using look by simp
  show ?thesis
    using set_ts dist_ts look gone
    by (simp add: TakeFramesWithHash_def TakeFramesWithHash_locked_def
        TakeFramesWithHash_loop_eq GetHash_def qmap_value_def)
qed

theorem C2_TakeFramesWithHash_witness:
  "qmap_inv [(1, [1]), (2, [2]), (5, [1]), (6, [6])] \<and>
   TakeFramesWithHash
     \<lparr>time_hash_map = [(1, [1]), (2, [2]), (5, [1]), (6, [6])], timebase = 1 / 2, jobs = [],
      trace = []\<rparr> [1] =
     ([1, 5],
      \<lparr>time_hash_map = [(2, [2]), (6, [6])], timebase = 1 / 2, jobs = [],
       trace = [Lock, NoLockInvalidate \<lparr>range_in = 1, range_out = 3 / 2\<rparr>,
                NoLockInvalidate \<lparr>range_in = 5, range_out = 11 / 2\<rparr>, Unlock,
                Invalidated \<lparr>range_in = 1, range_out = 3 / 2\<rparr>,
                Invalidated \<lparr>range_in = 5, range_out = 11 / 2\<rparr>]\<rparr>)"
proof -
  have inv: "qmap_inv (time_hash_map
     \<lparr>time_hash_map = [(1, [1]), (2, [2]), (5, [1]), (6, [6])], timebase = 1 / 2, jobs = [],
      trace = []\<rparr>)"
    by (simp add: qmap_inv_def)
  show ?thesis
    using inv C2_TakeFramesWithHash [OF inv, of "[1]"]
    by (cases "TakeFramesWithHash
         \<lparr>time_hash_map = [(1, [1]), (2, [2]), (5, [1]), (6, [6])], timebase = 1 / 2,
          jobs = [], trace = []\<rparr> [1]") simp
qed

text \<open>
  C3.  \<^verbatim>\<open>ShiftEvent(from, to)\<close> on a hash index with strictly ascending keys, with
  \<open>diff = to - from\<close> (\<open>fr\<close> stands for \<open>from\<close>).  The resulting index is described
  key by key: below both \<open>from\<close> and \<open>to\<close> it is the old index; from \<open>to\<close> on it
  holds the old entry of key \<open>k - diff\<close>; in between (only when \<open>diff > 0\<close>) it is
  empty.  Hence, when \<open>diff\<close> is negative, an old entry with key in \<open>[to, from)\<close> is
  gone (its place holds what was at a key \<open>\<ge> from\<close>, if anything); every entry with
  key \<open>\<ge> from\<close> is found at \<open>key + diff\<close> with its hash; every entry with key
  \<open>< from\<close> outside the deleted region is untouched.  The result is again strictly
  ascending and no other part of the cache changes.  In particular, shifting from
  5 to 2 an index with keys 1, 2, 5, 6, 7 leaves keys 1, 2, 3, 4: key 1 with its
  hash, and 2, 3, 4 with the hashes of 5, 6, 7.
\<close>

theorem C3_ShiftEvent:
  assumes "qmap_inv (time_hash_map s)"
  shows "(\<forall>k. map_of (time_hash_map (ShiftEvent s fr to)) k =
            (if k < fr \<and> k < to then map_of (time_hash_map s) k
             else if to \<le> k then map_of (time_hash_map s) (k - (to - fr))
             else None)) \<and>
         (to - fr < 0 \<longrightarrow>
            (\<forall>k. to \<le> k \<and> k < fr \<longrightarrow>
               map_of (time_hash_map (ShiftEvent s fr to)) k =
                 map_of (time_hash_map s) (k + (fr - to)) \<and> fr \<le> k + (fr - to))) \<and>
         (\<forall>k. fr \<le> k \<longrightarrow>
            map_of (time_hash_map (ShiftEvent s fr to)) (k + (to - fr)) =
              map_of (time_hash_map s) k) \<and>
         (\<forall>k. k < fr \<and> \<not> (to \<le> k) \<longrightarrow>
            map_of (time_hash_map (ShiftEvent s fr to)) k = map_of (time_hash_map s) k) \<and>
         qmap_inv (time_hash_map (ShiftEvent s fr to)) \<and>
         ShiftEvent s fr to = s\<lparr>time_hash_map := time_hash_map (ShiftEvent s fr to)\<rparr> \<and>
         ShiftEvent
           \<lparr>time_hash_map = [(1, h1), (2, h2), (5, h5), (6, h6), (7, h7)],
            timebase = tb, jobs = js, trace = tr\<rparr> 5 2 =
           \<lparr>time_hash_map = [(1, h1), (2, h5), (3, h6), (4, h7)],
            timebase = tb, jobs = js, trace = tr\<rparr>"
proof -
  note look = ShiftEvent_lookup [OF assms]
  have full: "\<forall>k. map_of (time_hash_map (ShiftEvent s fr to)) k =
            (if k < fr \<and> k < to then map_of (time_hash_map s) k
             else if to \<le> k then map_of (time_hash_map s) (k - (to - fr))
             else None)"
    by (simp only: look) simp
  have del: "to - fr < 0 \<longrightarrow>
            (\<forall>k. to \<le> k \<and> k < fr \<longrightarrow>
               map_of (time_hash_map (ShiftEvent s fr to)) k =
                 map_of (time_hash_map s) (k + (fr - to)) \<and> fr \<le> k + (fr - to))"
    by (simp add: look algebra_simps)
  have mv: "\<forall>k. fr \<le> k \<longrightarrow>
            map_of (time_hash_map (ShiftEvent s fr to)) (k + (to - fr)) =
              map_of (time_hash_map s) k"
    by (simp add: look)
  have keep: "\<forall>k. k < fr \<and> \<not> (to \<le> k) \<longrightarrow>
            map_of (time_hash_map (ShiftEvent s fr to)) k = map_of (time_hash_map s) k"
    by (simp add: look)
  have inv: "qmap_inv (time_hash_map (ShiftEvent s fr to))"
    using assms by (rule qmap_inv_ShiftEvent)
  have frame: "ShiftEvent s fr to = s\<lparr>time_hash_map := time_hash_map (ShiftEvent s fr to)\<rparr>"
    by (simp add: ShiftEvent_eq)
  have ex: "ShiftEvent
           \<lparr>time_hash_map = [(1, h1), (2, h2), (5, h5), (6, h6), (7, h7)],
            timebase = tb, jobs = js, trace = tr\<rparr> 5 2 =
           \<lparr>time_hash_map = [(1, h1), (2, h5), (3, h6), (4, h7)],
            timebase = tb, jobs = js, trace = tr\<rparr>"
    by (simp add: ShiftEvent_def)
  from full del mv keep inv frame ex show ?thesis by blast
qed

theorem C3_ShiftEvent_witness:
  "qmap_inv [(1, [1]), (2, [2]), (5, [5]), (6, [6]), (7, [7])] \<and>
   ShiftEvent
     \<lparr>time_hash_map = [(1, [1]), (2, [2]), (5, [5]), (6, [6]), (7, [7])],
      timebase = 1, jobs = [], trace = []\<rparr> 5 2 =
     \<lparr>time_hash_map = [(1, [1]), (2, [5]), (3, [6]), (4, [7])],
      timebase = 1, jobs = [], trace = []\<rparr> \<and>
   map_of (time_hash_map (ShiftEvent
     \<lparr>time_hash_map = [(1, [1]), (2, [2]), (5, [5]), (6, [6]), (7, [7])],
      timebase = 1, jobs = [], trace = []\<rparr> 5 2)) 2 = Some [5]"
proof -
  have inv: "qmap_inv (time_hash_map
     \<lparr>time_hash_map = [(1, [1]), (2, [2]), (5, [5]), (6, [6]), (7, [7])],
      timebase = 1, jobs = [], trace = []\<rparr>)"
    by (simp add: qmap_inv_def)
  show ?thesis
    using inv C3_ShiftEvent [OF inv, of 5 2 "[1]" "[2]" "[5]" "[6]" "[7]" 1 "[]" "[]"]
    by simp
qed

text \<open>
  C4.  \<^verbatim>\<open>GetFrameListFromTimeRange(range_list, timebase)\<close> returns the empty list
  for an empty interval list.  For a list with first interval \<open>r\<close> it takes
  \<open>t = r.in\<close>, snaps it to the grid, selects \<open>snapped - timebase\<close> with next
  boundary \<open>snapped\<close> when \<open>snapped > t\<close> and \<open>snapped\<close> with next boundary
  \<open>snapped + timebase\<close> otherwise, emits the selected sample and goes on with the
  list from which \<open>[selected, next)\<close> has been subtracted (a call that does not
  return stays one that does not return).  For a positive timebase the selected
  sample is the grid instant at or before \<open>t\<close> and \<open>[selected, next)\<close> is the grid
  cell holding \<open>t\<close>.  In particular the expansion of \<open>[0, 3)\<close> at timebase 1 is
  0, 1, 2 in this order.
\<close>

theorem C4_GetFrameListFromTimeRange_step:
  "GetFrameListFromTimeRange [] tb = Some [] \<and>
   GetFrameListFromTimeRange (r # rest) tb =
     (let t = range_in r;
          snapped = snap_time_to_timebase t tb;
          selected = (if snapped > t then snapped - tb else snapped);
          next = (if snapped > t then snapped else snapped + tb)
      in map_option ((#) selected)
           (GetFrameListFromTimeRange
              (RemoveTimeRange (r # rest) \<lparr>range_in = selected, range_out = next\<rparr>) tb)) \<and>
   (0 < tb \<longrightarrow>
      (let t = range_in r;
           snapped = snap_time_to_timebase t tb;
           selected = (if snapped > t then snapped - tb else snapped);
           next = (if snapped > t then snapped else snapped + tb)
       in selected = of_int \<lfloor>t / tb\<rfloor> * tb \<and> next = selected + tb \<and>
          selected \<le> t \<and> t < next)) \<and>
   GetFrameListFromTimeRange [\<lparr>range_in = 0, range_out = 3\<rparr>] 1 = Some [0, 1, 2]"
proof -
  let ?t = "range_in r"
  let ?sn = "snap_time_to_timebase ?t tb"
  let ?nx = "if ?sn > ?t then ?sn else ?sn + tb"
  let ?sel = "if ?sn > ?t then ?sn - tb else ?sn"
  let ?rl' = "RemoveTimeRange (r # rest) \<lparr>range_in = ?sel, range_out = ?nx\<rparr>"
  have nil: "GetFrameListFromTimeRange [] tb = Some []"
    by (simp add: GetFrameListFromTimeRange_def loop_Nil)
  have "GetFrameListFromTimeRange_loop (r # rest) tb [] =
          GetFrameListFromTimeRange_loop ?rl' tb [?sel]"
    by (simp add: loop_Cons Let_def split del: if_split)
  also have "\<dots> = map_option ((@) [?sel]) (GetFrameListFromTimeRange_loop ?rl' tb [])"
    by (rule loop_step)
  also have "(@) [?sel] = (#) ?sel" by (rule ext) simp
  finally have step: "GetFrameListFromTimeRange (r # rest) tb =
      map_option ((#) ?sel) (GetFrameListFromTimeRange ?rl' tb)"
    by (simp only: GetFrameListFromTimeRange_def)
  have grid: "?sel = of_int \<lfloor>?t / tb\<rfloor> * tb \<and> ?nx = ?sel + tb \<and> ?sel \<le> ?t \<and> ?t < ?nx"
    if tb: "0 < tb"
  proof -
    define k where "k = \<lfloor>?t / tb\<rfloor>"
    have sel: "?sel = of_int k * tb" unfolding k_def using tb by (rule snap_floor)
    have nx: "?nx = ?sel + tb" by (rule snap_next)
    have "of_int k \<le> ?t / tb" unfolding k_def by (rule of_int_floor_le)
    then have lo: "of_int k * tb \<le> ?t" using tb by (simp add: pos_le_divide_eq)
    have "?t / tb < of_int k + 1" unfolding k_def by linarith
    then have "?t < (of_int k + 1) * tb" using tb by (simp add: pos_divide_less_eq)
    then have hi: "?t < of_int k * tb + tb" by (simp add: algebra_simps)
    from lo hi show ?thesis unfolding nx unfolding sel unfolding k_def by simp
  qed
  have ex: "GetFrameListFromTimeRange [\<lparr>range_in = 0, range_out = 3\<rparr>] 1 = Some [0, 1, 2]"
    by code_simp
  from nil step grid ex show ?thesis by (simp only: Let_def) blast
qed

theorem C4_GetFrameListFromTimeRange_step_witness:
  "GetFrameListFromTimeRange
     [\<lparr>range_in = 1 / 3, range_out = 3 / 2\<rparr>, \<lparr>range_in = - 1, range_out = - 4 / 5\<rparr>] (1 / 2) =
   map_option ((#) 0)
     (GetFrameListFromTimeRange
        [\<lparr>range_in = 1 / 2, range_out = 3 / 2\<rparr>, \<lparr>range_in = - 1, range_out = - 4 / 5\<rparr>]
        (1 / 2)) \<and>
   GetFrameListFromTimeRange
     [\<lparr>range_in = 1 / 3, range_out = 3 / 2\<rparr>, \<lparr>range_in = - 1, range_out = - 4 / 5\<rparr>] (1 / 2) =
   Some [0, 1 / 2, 1, - 1]"
proof -
  have sn: "snap_time_to_timebase (1 / 3) (1 / 2) = 1 / 2" by code_simp
  have all: "GetFrameListFromTimeRange
     [\<lparr>range_in = 1 / 3, range_out = 3 / 2\<rparr>, \<lparr>range_in = - 1, range_out = - 4 / 5\<rparr>] (1 / 2) =
     Some [0, 1 / 2, 1, - 1]" by code_simp
  show ?thesis
    using C4_GetFrameListFromTimeRange_step [of "1 / 2" "\<lparr>range_in = 1 / 3, range_out = 3 / 2\<rparr>"
        "[\<lparr>range_in = - 1, range_out = - 4 / 5\<rparr>]"] all
    by (simp add: sn RemoveTimeRange_def TimeRange_subtract_def Let_def)
qed

text \<open>
  C5.  For a strictly positive timebase \<^verbatim>\<open>GetFrameListFromTimeRange\<close> returns,
  whatever the interval list (disjoint or not).
\<close>

theorem C5_GetFrameListFromTimeRange_terminates:
  "0 < tb \<Longrightarrow> \<exists>times'. GetFrameListFromTimeRange range_list tb = Some times'"
  unfolding GetFrameListFromTimeRange_def by (rule loop_terminates)

theorem C5_GetFrameListFromTimeRange_terminates_witness:
  "(0 :: rat) < 1 / 24 \<and>
   (\<exists>times'. GetFrameListFromTimeRange
      [\<lparr>range_in = 0, range_out = 1\<rparr>, \<lparr>range_in = 5, range_out = 7 / 2\<rparr>] (1 / 24) =
      Some times')"
proof -
  have pos: "(0 :: rat) < 1 / 24" by simp
  from pos C5_GetFrameListFromTimeRange_terminates [OF pos] show ?thesis by blast
qed

text \<open>
  C6.  The claim that a non-positive timebase is validated and rejected fails:
  the function has no check of the timebase.  At timebase 0 and the interval
  \<open>[0, 1)\<close> the call does not return.
\<close>

theorem C6_no_timebase_validation_counterexample:
  "GetFrameListFromTimeRange [\<lparr>range_in = 0, range_out = 1\<rparr>] 0 = None"
proof (rule ccontr)
  assume "GetFrameListFromTimeRange [\<lparr>range_in = 0, range_out = 1\<rparr>] 0 \<noteq> None"
  then obtain ys where
    "GetFrameListFromTimeRange_loop [\<lparr>range_in = 0, range_out = 1\<rparr>] 0 [] = Some ys"
    by (auto simp: GetFrameListFromTimeRange_def)
  from loop_diverges [OF this] show False by simp
qed

text \<open>
  C6, as the code behaves: \<^verbatim>\<open>GetFrameListFromTimeRange\<close> does not validate the
  timebase.  With a non-positive timebase it returns the empty list for an empty
  interval list and does not return for a non-empty one; a positive timebase is a
  precondition left to the caller.
\<close>

theorem C6_nonpositive_timebase:
  "tb \<le> 0 \<Longrightarrow>
   GetFrameListFromTimeRange range_list tb = (if range_list = [] then Some [] else None)"
proof (cases "range_list = []")
  case True
  then show ?thesis by (simp add: GetFrameListFromTimeRange_def loop_Nil)
next
  case False
  assume tb: "tb \<le> 0"
  have "GetFrameListFromTimeRange_loop range_list tb [] = None"
  proof (rule ccontr)
    assume "GetFrameListFromTimeRange_loop range_list tb [] \<noteq> None"
    then obtain ys where "GetFrameListFromTimeRange_loop range_list tb [] = Some ys" by auto
    from loop_diverges [OF this] tb False show False by simp
  qed
  with False show ?thesis by (simp add: GetFrameListFromTimeRange_def)
qed

theorem C6_nonpositive_timebase_witness:
  "(- 1 / 24 :: rat) \<le> 0 \<and>
   GetFrameListFromTimeRange [\<lparr>range_in = 2, range_out = 3\<rparr>] (- 1 / 24) = None \<and>
   GetFrameListFromTimeRange [] (- 1 / 24) = Some []"
proof -
  have neg: "(- 1 / 24 :: rat) \<le> 0" by simp
  show ?thesis
    using neg
      C6_nonpositive_timebase [OF neg, of "[\<lparr>range_in = 2, range_out = 3\<rparr>]"]
      C6_nonpositive_timebase [OF neg, of "[]"]
    by simp
qed

text \<open>
  C7.  \<^verbatim>\<open>LengthChangedEvent(old, newlen)\<close>: when \<open>newlen < old\<close> every entry of the
  hash index with key \<open>\<ge> newlen\<close> is removed and every entry with key \<open>< newlen\<close>
  is kept with its hash; otherwise the cache is unchanged.  In particular
  shortening from 10 to 4 keeps exactly the entries with key below 4, and growing
  from 4 to 10 changes nothing.
\<close>

theorem C7_LengthChangedEvent:
  "LengthChangedEvent s old newlen =
     (if newlen < old
      then s\<lparr>time_hash_map := filter (\<lambda>(k, v). k < newlen) (time_hash_map s)\<rparr>
      else s) \<and>
   (newlen < old \<longrightarrow>
      (\<forall>k. map_of (time_hash_map (LengthChangedEvent s old newlen)) k =
            (if k < newlen then map_of (time_hash_map s) k else None))) \<and>
   (\<forall>k. map_of (time_hash_map (LengthChangedEvent s 10 4)) k =
         (if k < 4 then map_of (time_hash_map s) k else None)) \<and>
   LengthChangedEvent s 4 10 = s"
  by (simp add: LengthChangedEvent_def LengthChangedEvent_loop_eq map_of_filter_key)

theorem C7_LengthChangedEvent_witness:
  "LengthChangedEvent
     \<lparr>time_hash_map = [(0, [1]), (3, [2]), (4, [3]), (9, [4])], timebase = 1, jobs = [],
      trace = []\<rparr> 10 4 =
     \<lparr>time_hash_map = [(0, [1]), (3, [2])], timebase = 1, jobs = [], trace = []\<rparr> \<and>
   LengthChangedEvent
     \<lparr>time_hash_map = [(0, [1]), (3, [2]), (4, [3]), (9, [4])], timebase = 1, jobs = [],
      trace = []\<rparr> 4 10 =
     \<lparr>time_hash_map = [(0, [1]), (3, [2]), (4, [3]), (9, [4])], timebase = 1, jobs = [],
      trace = []\<rparr>"
  using
    C7_LengthChangedEvent [of
      "\<lparr>time_hash_map = [(0, [1]), (3, [2]), (4, [3]), (9, [4])], timebase = 1, jobs = [],
        trace = []\<rparr>" 10 4]
    C7_LengthChangedEvent [of
      "\<lparr>time_hash_map = [(0, [1]), (3, [2]), (4, [3]), (9, [4])], timebase = 1, jobs = [],
        trace = []\<rparr>" 4 10]
  by simp

text \<open>
  C8.  \<^verbatim>\<open>InvalidateEvent(r)\<close> removes exactly the entries of the hash index whose key
  lies in \<open>[r.in, r.out)\<close> and leaves every other entry as it was.  Nothing else
  changes: the trace (no lock is taken, the validity ledger is not called, no
  signal is emitted), the timebase and the job list are those of the state before.
\<close>

theorem C8_InvalidateEvent:
  "InvalidateEvent s r =
     s\<lparr>time_hash_map :=
         filter (\<lambda>(k, v). \<not> (range_in r \<le> k \<and> k < range_out r)) (time_hash_map s)\<rparr> \<and>
   (\<forall>k. map_of (time_hash_map (InvalidateEvent s r)) k =
         (if range_in r \<le> k \<and> k < range_out r then None else map_of (time_hash_map s) k)) \<and>
   trace (InvalidateEvent s r) = trace s \<and>
   timebase (InvalidateEvent s r) = timebase s \<and>
   jobs (InvalidateEvent s r) = jobs s"
  by (simp add: InvalidateEvent_def InvalidateEvent_loop_eq Contains_def map_of_filter_key)

theorem C8_InvalidateEvent_witness:
  "InvalidateEvent
     \<lparr>time_hash_map = [(0, [1]), (3, [2]), (4, [3]), (9, [4])], timebase = 1, jobs = [],
      trace = [Lock, Unlock]\<rparr> \<lparr>range_in = 3, range_out = 9\<rparr> =
     \<lparr>time_hash_map = [(0, [1]), (9, [4])], timebase = 1, jobs = [], trace = [Lock, Unlock]\<rparr>"
  using
    C8_InvalidateEvent [of
      "\<lparr>time_hash_map = [(0, [1]), (3, [2]), (4, [3]), (9, [4])], timebase = 1, jobs = [],
        trace = [Lock, Unlock]\<rparr>" "\<lparr>range_in = 3, range_out = 9\<rparr>"]
  by simp

text \<open>
  C9.  For a hash with at least one byte and a cache root that is a plain
  directory path (not empty, no trailing separator), \<^verbatim>\<open>CachePathName\<close> returns
  \<open>cache_root/<hex of the first byte>/<hex of the remaining bytes><ext>\<close>: the
  directory below the root is named by the two hexadecimal digits of the hash's
  first byte (and is the directory the function creates), the file name is the
  hexadecimal encoding of the remaining bytes, two digits each, and the extension
  depends on the pixel format only through \<^verbatim>\<open>FormatIsFloat\<close>: \<^verbatim>\<open>.exr\<close> for the
  floating-point formats and \<^verbatim>\<open>.jpg\<close> for all others.
\<close>

theorem C9_CachePathName:
  assumes "hash \<noteq> []" and "cache_root \<noteq> []" and "last cache_root \<noteq> CHR ''/''"
  shows "CachePathName cache_root hash pix_fmt =
           cache_root @ ''/'' @ toHex [hd hash] @ ''/'' @ toHex (tl hash) @
             (if FormatIsFloat pix_fmt then ''.exr'' else ''.jpg'') \<and>
         CachePathName_dir cache_root hash = cache_root @ ''/'' @ toHex [hd hash] \<and>
         GetFormatExtension pix_fmt = (if FormatIsFloat pix_fmt then ''.exr'' else ''.jpg'') \<and>
         length (toHex [hd hash]) = 2 \<and> length (toHex (tl hash)) = 2 * length (tl hash)"
proof -
  obtain b bs where hash: "hash = b # bs" using assms(1) by (cases hash) auto
  let ?d1 = "hex_digit (unat b div 16)" and ?d2 = "hex_digit (unat b mod 16)"
  let ?ext = "GetFormatExtension pix_fmt"
  have d1: "?d1 \<noteq> CHR ''/''" by (rule hex_digit_not_slash) (rule unat_byte_div)
  have d2: "?d2 \<noteq> CHR ''/''" by (rule hex_digit_not_slash) simp
  have first: "toHex (take 1 hash) = [?d1, ?d2]" by (simp add: hash toHex_Cons toHex_Nil)
  have root: "QDir cache_root = cache_root" using assms(2,3) by (rule QDir_plain)
  have "filePath cache_root [?d1, ?d2] = cache_root @ ''/'' @ [?d1, ?d2]"
    using assms(2,3) d1 by (intro filePath_join) simp_all
  moreover have "QDir (cache_root @ ''/'' @ [?d1, ?d2]) = cache_root @ ''/'' @ [?d1, ?d2]"
    using d2 by (intro QDir_plain) simp_all
  ultimately have dir: "CachePathName_dir cache_root hash = cache_root @ ''/'' @ [?d1, ?d2]"
    by (simp only: CachePathName_dir_def first root)
  have ext: "?ext = (if FormatIsFloat pix_fmt then ''.exr'' else ''.jpg'')"
    by (simp add: GetFormatExtension_def)
  have fn_hd: "hd (toHex bs @ ?ext) \<noteq> CHR ''/''"
  proof (cases bs)
    case Nil
    then show ?thesis by (simp add: toHex_Nil ext)
  next
    case (Cons c cs)
    then show ?thesis using hex_digit_not_slash [OF unat_byte_div [of c]]
      by (simp add: toHex_Cons)
  qed
  have fn_ne: "toHex bs @ ?ext \<noteq> []" by (simp add: ext)
  have "filePath (cache_root @ ''/'' @ [?d1, ?d2]) (toHex bs @ ?ext) =
          (cache_root @ ''/'' @ [?d1, ?d2]) @ ''/'' @ (toHex bs @ ?ext)"
    using d2 fn_ne fn_hd by (intro filePath_join) simp_all
  then have path: "CachePathName cache_root hash pix_fmt =
      cache_root @ ''/'' @ [?d1, ?d2] @ ''/'' @ toHex bs @ ?ext"
    using dir by (simp add: CachePathName_def Let_def hash)
  have len: "length (toHex bs) = 2 * length bs"
    by (induction bs) (simp_all add: toHex_Cons toHex_Nil)
  show ?thesis
    using path dir ext len by (simp add: hash toHex_Cons toHex_Nil)
qed

theorem C9_CachePathName_witness:
  "CachePathName ''/tmp/cache'' [171, 1, 255] PIX_FMT_RGBA16F = ''/tmp/cache/ab/01ff.exr'' \<and>
   CachePathName ''/tmp/cache'' [171, 1, 255] PIX_FMT_RGB8 = ''/tmp/cache/ab/01ff.jpg''"
  using
    C9_CachePathName [of "[171, 1, 255]" "''/tmp/cache''" PIX_FMT_RGBA16F]
    C9_CachePathName [of "[171, 1, 255]" "''/tmp/cache''" PIX_FMT_RGB8]
  by (simp add: toHex_def hex_digit_def)

text \<open>
  C10.  \<^verbatim>\<open>ShiftEvent(from, to)\<close> with \<open>to = from\<close> on a hash index with strictly
  ascending keys returns the cache as it was.  Its loop leaves the entries with key
  \<open>< from\<close> in the map and collects every entry with key \<open>\<ge> from\<close> for reinsertion
  at the same key with the same hash.
\<close>

theorem C10_ShiftEvent_identity:
  assumes "qmap_inv (time_hash_map s)"
  shows "ShiftEvent s fr fr = s \<and>
         ShiftEvent_loop fr fr (fr - fr) (fr - fr < 0) [] (time_hash_map s) [] =
           (filter (\<lambda>(k, v). k < fr) (time_hash_map s),
            map (\<lambda>(k, v). \<lparr>pair_time = k, pair_hash = v\<rparr>)
              (filter (\<lambda>(k, v). fr \<le> k) (time_hash_map s)))"
proof -
  have "map_of (time_hash_map (ShiftEvent s fr fr)) = map_of (time_hash_map s)"
    by (simp add: fun_eq_iff ShiftEvent_lookup [OF assms])
  with qmap_inv_ShiftEvent [OF assms] assms
  have "time_hash_map (ShiftEvent s fr fr) = time_hash_map s" by (rule qmap_eqI)
  moreover have "ShiftEvent s fr fr = s\<lparr>time_hash_map := time_hash_map (ShiftEvent s fr fr)\<rparr>"
    by (simp add: ShiftEvent_eq)
  ultimately have "ShiftEvent s fr fr = s" by simp
  then show ?thesis by (simp add: ShiftEvent_loop_eq)
qed

theorem C10_ShiftEvent_identity_witness:
  "qmap_inv [(1, [1]), (2, [2]), (5, [5]), (6, [6]), (7, [7])] \<and>
   ShiftEvent
     \<lparr>time_hash_map = [(1, [1]), (2, [2]), (5, [5]), (6, [6]), (7, [7])],
      timebase = 1, jobs = [], trace = []\<rparr> 5 5 =
     \<lparr>time_hash_map = [(1, [1]), (2, [2]), (5, [5]), (6, [6]), (7, [7])],
      timebase = 1, jobs = [], trace = []\<rparr>"
proof -
  have inv: "qmap_inv (time_hash_map
     \<lparr>time_hash_map = [(1, [1]), (2, [2]), (5, [5]), (6, [6]), (7, [7])],
      timebase = 1, jobs = [], trace = []\<rparr>)"
    by (simp add: qmap_inv_def)
  show ?thesis
    using inv C10_ShiftEvent_identity [OF inv, of 5]
    by simp
qed

end
